theory Spec2Isabelle
  imports Main
begin

section \<open>JavaScript values and errors\<close>

text \<open>
  The exceptions the sources throw or run into. \<open>Error msg\<close> is \<^verbatim>\<open>new Error(msg)\<close>;
  the other constructors are the built-in error classes of the language, with their
  message.
\<close>

datatype js_error =
    Error string
  | TypeError string
  | ReferenceError string
  | URIError string

section \<open>The dispatch chain (\<^verbatim>\<open>chain\<close> in src/unnamed/part_003)\<close>

text \<open>
  A \<^verbatim>\<open>Promise<void>\<close> that has settled: the value an awaited call of the continuation
  gives back to the middleware that awaits it.
\<close>

datatype outcome = Resolved | Rejected js_error

text \<open>
  The body of a middleware \<^verbatim>\<open>(ctx, next) => ...\<close>, as the tree of what it may do with
  its two arguments, each step awaited before the following one:
  \<^item> \<open>Return\<close>: finish normally (the returned promise resolves);
  \<^item> \<open>Throw e\<close>: throw \<open>e\<close> (the returned promise rejects with \<open>e\<close>);
  \<^item> \<open>Modify f p\<close>: write to the context, go on as \<open>p\<close>;
  \<^item> \<open>Inspect k\<close>: read the context and go on as \<open>k\<close> of it;
  \<^item> \<open>Await_next k\<close>: \<^verbatim>\<open>await next()\<close>, and go on as \<open>k\<close> of how the call settled.
    A middleware that lets a rejection through has \<open>k (Rejected e) = Throw e\<close>; one with
    a \<^verbatim>\<open>try\<close>/\<^verbatim>\<open>catch\<close> around the call has any other \<open>k (Rejected e)\<close>.
\<close>

datatype 'c prog =
    Return
  | Throw js_error
  | Modify "'c \<Rightarrow> 'c" "'c prog"
  | Inspect "'c \<Rightarrow> 'c prog"
  | Await_next "outcome \<Rightarrow> 'c prog"

text \<open>
  The state of one call of \<^verbatim>\<open>chain\<close>: the closure variable \<^verbatim>\<open>id\<close> (here \<open>id_last\<close>, the
  ``last called middleware id''), the context, and a ghost field \<open>ran\<close> that lists, in
  order, the indices of the entries of \<^verbatim>\<open>middlewares\<close> that have been invoked.
\<close>

record 'c chain_state =
  id_last :: int
  ctx :: 'c
  ran :: "int list"

type_synonym 'c completion = "'c chain_state \<Rightarrow> outcome \<times> 'c chain_state"

primrec run_prog :: "'c prog \<Rightarrow> 'c completion \<Rightarrow> 'c completion" where
  "run_prog Return nxt s = (Resolved, s)"
| "run_prog (Throw e) nxt s = (Rejected e, s)"
| "run_prog (Modify f p) nxt s = run_prog p nxt (s\<lparr>ctx := f (ctx s)\<rparr>)"
| "run_prog (Inspect k) nxt s = run_prog (k (ctx s)) nxt s"
| "run_prog (Await_next k) nxt s = (case nxt s of (r, s') \<Rightarrow> run_prog (k r) nxt s')"

lemma run_prog_cong [fundef_cong]:
  "p = p' \<Longrightarrow> s = s' \<Longrightarrow> (\<And>t. nxt t = nxt' t) \<Longrightarrow> run_prog p nxt s = run_prog p' nxt' s'"
proof -
  assume "p = p'" "s = s'" and eq: "\<And>t. nxt t = nxt' t"
  from eq have "nxt = nxt'" by (rule ext)
  with \<open>p = p'\<close> \<open>s = s'\<close> show ?thesis by simp
qed

text \<open>
  \<^verbatim>\<open>dispatch(idx)\<close>. An index outside the array reads \<^verbatim>\<open>undefined\<close>, and
  \<^verbatim>\<open>fn?.(ctx, next)\<close> is then \<^verbatim>\<open>undefined\<close>: the call resolves. At
  \<^verbatim>\<open>idx == middlewares.length\<close> the function called is \<^verbatim>\<open>next\<close> itself.
\<close>

function dispatch :: "'c prog list \<Rightarrow> int \<Rightarrow> 'c completion" where
  "dispatch middlewares idx s =
     (if idx \<le> id_last s then (Rejected (Error ''next() called multiple times''), s)
      else
        let s1 = s\<lparr>id_last := idx\<rparr> in
        if idx = int (length middlewares) then dispatch middlewares (idx + 1) s1
        else if 0 \<le> idx \<and> idx < int (length middlewares) then
          run_prog (middlewares ! nat idx) (\<lambda>t. dispatch middlewares (idx + 1) t)
            (s1\<lparr>ran := ran s1 @ [idx]\<rparr>)
        else (Resolved, s1))"
  by pat_completeness auto
termination
  by (relation "measure (\<lambda>(middlewares, idx, s). nat (int (length middlewares) + 1 - idx))") auto

declare dispatch.simps [simp del]

definition chain :: "'c \<Rightarrow> 'c prog list \<Rightarrow> outcome \<times> 'c chain_state" where
  "chain c middlewares = dispatch middlewares 0 \<lparr>id_last = - 1, ctx = c, ran = []\<rparr>"

lemma dispatch_repeat:
  "idx \<le> id_last s \<Longrightarrow> dispatch middlewares idx s = (Rejected (Error ''next() called multiple times''), s)"
  by (simp add: dispatch.simps)

text \<open>The error \<^verbatim>\<open>dispatch\<close> throws at a repeated index.\<close>

definition double_invocation :: js_error where
  "double_invocation = Error ''next() called multiple times''"

subsection \<open>What every run of the chain keeps\<close>

text \<open>
  \<open>tidy\<close>: no index was invoked twice, and none lies above \<open>id_last\<close>, which is
  therefore the highest index reached. \<open>steady\<close>: a completion never lowers
  \<open>id_last\<close> and keeps a tidy state tidy.
\<close>

definition tidy :: "'c chain_state \<Rightarrow> bool" where
  "tidy s = (distinct (ran s) \<and> list_all (\<lambda>j. j \<le> id_last s) (ran s))"

definition steady :: "'c completion \<Rightarrow> bool" where
  "steady nxt = (\<forall>s r t. nxt s = (r, t) \<longrightarrow> id_last s \<le> id_last t \<and> (tidy s \<longrightarrow> tidy t))"

lemma steadyD: "steady nxt \<Longrightarrow> nxt s = (r, t) \<Longrightarrow> id_last s \<le> id_last t \<and> (tidy s \<longrightarrow> tidy t)"
  unfolding steady_def by blast

lemma run_prog_steady_aux:
  "steady nxt \<Longrightarrow> run_prog p nxt s = (r, t) \<Longrightarrow> id_last s \<le> id_last t \<and> (tidy s \<longrightarrow> tidy t)"
proof (induction p arbitrary: s)
  case Return
  then show ?case by simp
next
  case (Throw e)
  then show ?case by simp
next
  case (Modify f p)
  from Modify.IH [OF Modify.prems(1), of "s\<lparr>ctx := f (ctx s)\<rparr>"] Modify.prems(2)
  show ?case by (simp add: tidy_def)
next
  case (Inspect k)
  from Inspect.IH [OF _ Inspect.prems(1), of "k (ctx s)" s] Inspect.prems(2)
  show ?case by simp
next
  case (Await_next k)
  obtain r1 s1 where n: "nxt s = (r1, s1)" by (cases "nxt s")
  with Await_next.prems have run: "run_prog (k r1) nxt s1 = (r, t)" by simp
  from steadyD [OF Await_next.prems(1) n]
    Await_next.IH [OF _ Await_next.prems(1) run]
  show ?case by auto
qed

lemma dispatch_at_end:
  "\<not> idx \<le> id_last s \<Longrightarrow> idx = int (length middlewares) \<Longrightarrow>
   dispatch middlewares idx s = dispatch middlewares (idx + 1) (s\<lparr>id_last := idx\<rparr>)"
  by (subst dispatch.simps) (simp add: Let_def)

lemma dispatch_entry:
  "\<not> idx \<le> id_last s \<Longrightarrow> 0 \<le> idx \<Longrightarrow> idx < int (length middlewares) \<Longrightarrow>
   dispatch middlewares idx s =
     run_prog (middlewares ! nat idx) (\<lambda>t. dispatch middlewares (idx + 1) t)
       (s\<lparr>id_last := idx, ran := ran s @ [idx]\<rparr>)"
  by (subst dispatch.simps) (simp add: Let_def)

lemma dispatch_beyond:
  "\<not> idx \<le> id_last s \<Longrightarrow> idx < 0 \<or> int (length middlewares) < idx \<Longrightarrow>
   dispatch middlewares idx s = (Resolved, s\<lparr>id_last := idx\<rparr>)"
  by (subst dispatch.simps) (auto simp add: Let_def)

lemma dispatch_steady_aux:
  "dispatch middlewares idx s = (r, t) \<Longrightarrow> id_last s \<le> id_last t \<and> (tidy s \<longrightarrow> tidy t)"
proof (induction middlewares idx s arbitrary: r t rule: dispatch.induct)
  case (1 middlewares idx s)
  show ?case
  proof (cases "idx \<le> id_last s")
    case True
    with "1.prems" show ?thesis by (simp add: dispatch_repeat)
  next
    case fresh: False
    let ?s1 = "s\<lparr>id_last := idx\<rparr>"
    have up: "tidy s \<longrightarrow> tidy (s\<lparr>id_last := idx, ran := ran s @ [idx]\<rparr>)"
      using fresh by (auto simp: tidy_def list_all_iff)
    have up': "tidy s \<longrightarrow> tidy ?s1"
      using fresh by (auto simp: tidy_def list_all_iff)
    show ?thesis
    proof (cases "idx = int (length middlewares)")
      case True
      from "1.prems" have "dispatch middlewares (idx + 1) ?s1 = (r, t)"
        by (simp only: dispatch_at_end [OF fresh True])
      from "1.IH"(1) [OF fresh refl True this] up' fresh show ?thesis by auto
    next
      case notend: False
      show ?thesis
      proof (cases "0 \<le> idx \<and> idx < int (length middlewares)")
        case True
        have st: "steady (\<lambda>t. dispatch middlewares (idx + 1) t)"
          unfolding steady_def using "1.IH"(2) [OF fresh refl notend True] by blast
        from True "1.prems"
        have "run_prog (middlewares ! nat idx) (\<lambda>t. dispatch middlewares (idx + 1) t)
                (s\<lparr>id_last := idx, ran := ran s @ [idx]\<rparr>) = (r, t)"
          by (simp add: dispatch_entry [OF fresh])
        from run_prog_steady_aux [OF st this] up fresh show ?thesis by auto
      next
        case False
        with notend have "idx < 0 \<or> int (length middlewares) < idx" by auto
        from dispatch_beyond [OF fresh this] "1.prems" up' fresh show ?thesis
          by auto
      qed
    qed
  qed
qed


lemma dispatch_steady: "steady (dispatch middlewares idx)"
  unfolding steady_def using dispatch_steady_aux by blast

lemma dispatch_reaches:
  assumes "\<not> idx \<le> id_last s" and "dispatch middlewares idx s = (r, t)"
  shows "idx \<le> id_last t"
proof -
  consider (e) "idx = int (length middlewares)"
    | (m) "0 \<le> idx" "idx < int (length middlewares)"
    | (b) "idx < 0 \<or> int (length middlewares) < idx"
    by linarith
  then show ?thesis
  proof cases
    case e
    from assms(2) have "dispatch middlewares (idx + 1) (s\<lparr>id_last := idx\<rparr>) = (r, t)"
      by (simp only: dispatch_at_end [OF assms(1) e])
    from dispatch_steady_aux [OF this] show ?thesis by simp
  next
    case m
    from assms(2) have "run_prog (middlewares ! nat idx) (\<lambda>t. dispatch middlewares (idx + 1) t)
        (s\<lparr>id_last := idx, ran := ran s @ [idx]\<rparr>) = (r, t)"
      by (simp only: dispatch_entry [OF assms(1) m])
    from run_prog_steady_aux [OF dispatch_steady this] show ?thesis by simp
  next
    case b
    from dispatch_beyond [OF assms(1) b] assms(2) show ?thesis by auto
  qed
qed

subsection \<open>An entry that awaits its continuation twice\<close>

text \<open>
  \<^verbatim>\<open>async (ctx, next) => { await next(); await next(); }\<close>: both calls are awaited and
  a rejection of either is let through.
\<close>

definition await_twice :: "'c prog" where
  "await_twice =
     Await_next (\<lambda>r. case r of
         Rejected e \<Rightarrow> Throw e
       | Resolved \<Rightarrow> Await_next (\<lambda>r'. case r' of Rejected e \<Rightarrow> Throw e | Resolved \<Rightarrow> Return))"

lemma run_await_twice:
  "run_prog await_twice nxt s =
     (case nxt s of
        (Resolved, t) \<Rightarrow> (case nxt t of (Resolved, u) \<Rightarrow> (Resolved, u) | (Rejected e, u) \<Rightarrow> (Rejected e, u))
      | (Rejected e, t) \<Rightarrow> (Rejected e, t))"
  by (simp add: await_twice_def split: prod.splits outcome.splits)

lemma chain_await_twice:
  "chain c (await_twice # rest) =
     (case dispatch (await_twice # rest) 1 \<lparr>id_last = 0, ctx = c, ran = [0]\<rparr> of
        (Resolved, t) \<Rightarrow> (Rejected double_invocation, t)
      | (Rejected e, t) \<Rightarrow> (Rejected e, t))"
proof -
  define ms where "ms = (await_twice :: 'a prog) # rest"
  let ?s1 = "\<lparr>id_last = 0, ctx = c, ran = [0]\<rparr>"
  obtain r t where first: "dispatch ms 1 ?s1 = (r, t)" by (cases "dispatch ms 1 ?s1")
  have "dispatch ms 0 \<lparr>id_last = - 1, ctx = c, ran = []\<rparr> =
      run_prog (ms ! nat 0) (\<lambda>t. dispatch ms (0 + 1) t)
        (\<lparr>id_last = - 1, ctx = c, ran = []\<rparr>\<lparr>id_last := 0, ran := ran \<lparr>id_last = - 1, ctx = c, ran = []\<rparr> @ [0]\<rparr>)"
    by (rule dispatch_entry) (simp_all add: ms_def)
  then have start: "chain c ms = run_prog await_twice (\<lambda>t. dispatch ms 1 t) ?s1"
    by (simp add: chain_def ms_def)
  have "chain c ms =
     (case dispatch ms 1 ?s1 of
        (Resolved, t) \<Rightarrow> (Rejected double_invocation, t)
      | (Rejected e, t) \<Rightarrow> (Rejected e, t))"
  proof (cases r)
    case Resolved
    have "1 \<le> id_last t" using dispatch_reaches [OF _ first] by simp
    then have "dispatch ms 1 t = (Rejected double_invocation, t)"
      by (simp add: dispatch_repeat double_invocation_def)
    with first Resolved show ?thesis
      by (simp add: start run_await_twice)
  next
    case (Rejected e)
    with first show ?thesis by (simp add: start run_await_twice)
  qed
  then show ?thesis by (simp only: ms_def)
qed

text \<open>
  \<open>finishes p\<close>: \<open>p\<close> neither throws nor calls its continuation.
  \<open>calls_next_once p\<close>: \<open>p\<close> awaits its continuation exactly once and, when that
  call resolves, finishes.
\<close>

inductive finishes :: "'c prog \<Rightarrow> bool" where
  "finishes Return"
| "finishes p \<Longrightarrow> finishes (Modify f p)"
| "(\<And>c. finishes (k c)) \<Longrightarrow> finishes (Inspect k)"

inductive calls_next_once :: "'c prog \<Rightarrow> bool" where
  "finishes (k Resolved) \<Longrightarrow> calls_next_once (Await_next k)"
| "calls_next_once p \<Longrightarrow> calls_next_once (Modify f p)"
| "(\<And>c. calls_next_once (k c)) \<Longrightarrow> calls_next_once (Inspect k)"

lemma finishes_run:
  "finishes p \<Longrightarrow> \<exists>c'. run_prog p nxt s = (Resolved, \<lparr>id_last = id_last s, ctx = c', ran = ran s\<rparr>)"
proof (induction p arbitrary: s rule: finishes.induct)
  case 1
  have "s = \<lparr>id_last = id_last s, ctx = ctx s, ran = ran s\<rparr>" by simp
  then show ?case by (simp del: chain_state.simps) blast
next
  case (2 p f)
  from 2(2) [of "s\<lparr>ctx := f (ctx s)\<rparr>"] show ?case by auto
next
  case (3 k)
  from 3(2) [of "ctx s" s] show ?case by auto
qed

lemma once_run:
  assumes "calls_next_once p"
    and "\<And>s. id_last s = i \<Longrightarrow> \<exists>c'. nxt s = (Resolved, \<lparr>id_last = l, ctx = c', ran = ran s @ xs\<rparr>)"
    and "id_last s = i"
  shows "\<exists>c'. run_prog p nxt s = (Resolved, \<lparr>id_last = l, ctx = c', ran = ran s @ xs\<rparr>)"
  using assms(1,3)
proof (induction p arbitrary: s rule: calls_next_once.induct)
  case (1 k)
  from assms(2) [OF 1(2)] obtain c1 where
    n: "nxt s = (Resolved, \<lparr>id_last = l, ctx = c1, ran = ran s @ xs\<rparr>)" by blast
  from finishes_run [OF 1(1), of nxt "\<lparr>id_last = l, ctx = c1, ran = ran s @ xs\<rparr>"] n
  show ?case by auto
next
  case (2 p f)
  from 2(2) [of "s\<lparr>ctx := f (ctx s)\<rparr>"] 2(3) show ?case by auto
next
  case (3 k)
  from 3(2) [of s "ctx s"] 3(3) show ?case by auto
qed

lemma dispatch_all_once:
  assumes "\<forall>j. idx \<le> j \<and> j < length middlewares \<longrightarrow> calls_next_once (middlewares ! j)"
    and "idx \<le> length middlewares" and "id_last s < int idx"
  shows "\<exists>c'. dispatch middlewares (int idx) s =
      (Resolved, \<lparr>id_last = int (length middlewares) + 1, ctx = c',
                  ran = ran s @ map int [idx..<length middlewares]\<rparr>)"
  using assms
proof (induction "length middlewares - idx" arbitrary: idx s)
  case 0
  then have e: "int idx = int (length middlewares)" by simp
  from 0 have f: "\<not> int idx \<le> id_last s" by simp
  have "dispatch middlewares (int idx) s = (Resolved, s\<lparr>id_last := int idx + 1\<rparr>)"
    by (simp add: dispatch_at_end [OF f e]) (subst dispatch_beyond, simp_all add: e)
  with 0 e have "dispatch middlewares (int idx) s =
      (Resolved, \<lparr>id_last = int (length middlewares) + 1, ctx = ctx s,
                  ran = ran s @ map int [idx..<length middlewares]\<rparr>)" by simp
  then show ?case by blast
next
  case (Suc d)
  then have lt: "idx < length middlewares" by simp
  from Suc have f: "\<not> int idx \<le> id_last s" by simp
  define s1 where "s1 = s\<lparr>id_last := int idx, ran := ran s @ [int idx]\<rparr>"
  have nxt: "\<exists>c'. dispatch middlewares (int idx + 1) u =
       (Resolved, \<lparr>id_last = int (length middlewares) + 1, ctx = c',
                   ran = ran u @ map int [Suc idx..<length middlewares]\<rparr>)"
    if "id_last u = int idx" for u :: "'a chain_state"
  proof -
    have "d = length middlewares - Suc idx" using Suc(2) by simp
    from Suc(1) [OF this, of u] Suc(3) lt that show ?thesis
      by (simp add: add.commute)
  qed
  from Suc(3) lt have "calls_next_once (middlewares ! idx)" by simp
  from once_run [where s = s1, OF this nxt] obtain c' where
    "run_prog (middlewares ! idx) (\<lambda>t. dispatch middlewares (int idx + 1) t) s1 =
       (Resolved, \<lparr>id_last = int (length middlewares) + 1, ctx = c',
                   ran = ran s1 @ map int [Suc idx..<length middlewares]\<rparr>)"
    by (auto simp: s1_def)
  with lt have "dispatch middlewares (int idx) s =
      (Resolved, \<lparr>id_last = int (length middlewares) + 1, ctx = c',
                  ran = ran s @ map int [idx..<length middlewares]\<rparr>)"
    by (simp add: dispatch_entry [OF f] upt_conv_Cons s1_def)
  then show ?case by blast
qed


lemma distinct_count_list: "distinct xs \<Longrightarrow> count_list xs x = (if x \<in> set xs then 1 else 0)"
  by (induction xs) auto

lemma chain_tidy: "tidy (snd (chain c middlewares))"
proof -
  obtain r t where ch: "chain c middlewares = (r, t)" by (cases "chain c middlewares")
  then have "dispatch middlewares 0 \<lparr>id_last = - 1, ctx = c, ran = []\<rparr> = (r, t)"
    by (simp add: chain_def)
  from dispatch_steady_aux [OF this] have "tidy t" by (simp add: tidy_def)
  with ch show ?thesis by simp
qed

lemma chain_all_once:
  assumes "\<forall>p\<in>set rest. calls_next_once p"
  shows "\<exists>c'. chain c (await_twice # rest) =
    (Rejected double_invocation,
     \<lparr>id_last = int (length rest) + 2, ctx = c', ran = map int [0..<Suc (length rest)]\<rparr>)"
proof -
  define ms where "ms = (await_twice :: 'a prog) # rest"
  have "\<forall>j. 1 \<le> j \<and> j < length ms \<longrightarrow> calls_next_once (ms ! j)"
    using assms by (auto simp: ms_def nth_Cons split: nat.splits)
  from dispatch_all_once [OF this, of "\<lparr>id_last = 0, ctx = c, ran = [0]\<rparr>"]
  obtain c' where "dispatch ms 1 \<lparr>id_last = 0, ctx = c, ran = [0]\<rparr> =
      (Resolved, \<lparr>id_last = int (length ms) + 1, ctx = c', ran = [0] @ map int [1..<length ms]\<rparr>)"
    by (auto simp: ms_def)
  then have "chain c ms = (Rejected double_invocation,
      \<lparr>id_last = int (length rest) + 2, ctx = c', ran = map int [0..<Suc (length rest)]\<rparr>)"
    unfolding ms_def by (simp add: chain_await_twice upt_conv_Cons del: upt_Suc)
  then show ?thesis unfolding ms_def by blast
qed


text \<open>
  C1 (as amended). A call of the continuation at an index that is not above the highest
  index reached is rejected with the error ``next() called multiple times'' and changes
  nothing; whether the chain's completion then fails is up to the middlewares that
  receive the rejection. A call at an index above it is let in (the index counts as
  reached from then on), and \<open>id_last\<close> is the highest index reached: no invoked entry
  lies above it. No entry of any list is ever invoked twice. For a list whose
  entry 0 awaits its continuation twice and lets rejections through, the completion of
  the chain always fails; it fails with that error whenever the first call resolved,
  and when every later entry awaits its continuation once and finishes, the entries
  \<open>1, ..., length rest\<close> have each been invoked exactly once, in order, by then.
\<close>

theorem chain_double_invocation:
  "(idx \<le> id_last s \<longrightarrow> dispatch middlewares idx s = (Rejected double_invocation, s))
   \<and> (id_last s < idx \<longrightarrow> idx \<le> id_last (snd (dispatch middlewares idx s)))
   \<and> (\<forall>j\<in>set (ran (snd (chain c middlewares))). j \<le> id_last (snd (chain c middlewares)))
   \<and> (\<forall>j. count_list (ran (snd (chain c middlewares))) j \<le> 1)
   \<and> fst (chain c (await_twice # rest)) \<noteq> Resolved
   \<and> (fst (dispatch (await_twice # rest) 1 \<lparr>id_last = 0, ctx = c, ran = [0]\<rparr>) = Resolved \<longrightarrow>
        fst (chain c (await_twice # rest)) = Rejected double_invocation)
   \<and> ((\<forall>p\<in>set rest. calls_next_once p) \<longrightarrow>
        fst (chain c (await_twice # rest)) = Rejected double_invocation
        \<and> ran (snd (chain c (await_twice # rest))) = map int [0..<Suc (length rest)]
        \<and> (\<forall>j\<in>{1..length rest}. count_list (ran (snd (chain c (await_twice # rest)))) (int j) = 1))"
proof (intro conjI impI allI)
  assume "idx \<le> id_last s"
  then show "dispatch middlewares idx s = (Rejected double_invocation, s)"
    by (simp add: dispatch_repeat double_invocation_def)
next
  assume "id_last s < idx"
  then have "\<not> idx \<le> id_last s" by simp
  then show "idx \<le> id_last (snd (dispatch middlewares idx s))"
    by (rule dispatch_reaches) (rule surjective_pairing)
next
  from chain_tidy [of c middlewares]
  show "\<forall>j\<in>set (ran (snd (chain c middlewares))). j \<le> id_last (snd (chain c middlewares))"
    by (simp add: tidy_def list_all_iff)
next
  fix j
  from chain_tidy [of c middlewares] have "distinct (ran (snd (chain c middlewares)))"
    by (simp add: tidy_def)
  then show "count_list (ran (snd (chain c middlewares))) j \<le> 1"
    by (simp add: distinct_count_list)
next
  show "fst (chain c (await_twice # rest)) \<noteq> Resolved"
    by (simp add: chain_await_twice split: prod.splits outcome.splits)
next
  assume "fst (dispatch (await_twice # rest) 1 \<lparr>id_last = 0, ctx = c, ran = [0]\<rparr>) = Resolved"
  then show "fst (chain c (await_twice # rest)) = Rejected double_invocation"
    by (cases "dispatch (await_twice # rest) 1 \<lparr>id_last = 0, ctx = c, ran = [0]\<rparr>")
      (simp add: chain_await_twice)
next
  assume a: "\<forall>p\<in>set rest. calls_next_once p"
  from chain_all_once [OF a, of c] obtain c' where
    ch: "chain c (await_twice # rest) = (Rejected double_invocation,
      \<lparr>id_last = int (length rest) + 2, ctx = c', ran = map int [0..<Suc (length rest)]\<rparr>)"
    by blast
  then show "fst (chain c (await_twice # rest)) = Rejected double_invocation" by simp
  from ch show r: "ran (snd (chain c (await_twice # rest))) = map int [0..<Suc (length rest)]"
    by simp
  have d: "distinct (map int [0..<Suc (length rest)])"
    by (simp only: distinct_map distinct_upt) (simp add: inj_on_def)
  show "\<forall>j\<in>{1..length rest}. count_list (ran (snd (chain c (await_twice # rest)))) (int j) = 1"
    unfolding r distinct_count_list [OF d] by auto
qed

text \<open>
  Witness for C1: a two-entry list, entry 0 awaiting its continuation twice and entry 1
  passing control on once.
\<close>

theorem chain_double_invocation_witness:
  "dispatch [await_twice, Await_next (\<lambda>r. Return)] 0 \<lparr>id_last = 0, ctx = (), ran = [0]\<rparr> =
     (Rejected double_invocation, \<lparr>id_last = 0, ctx = (), ran = [0]\<rparr>)
   \<and> fst (chain () [await_twice, Await_next (\<lambda>r. Return)]) = Rejected double_invocation
   \<and> ran (snd (chain () [await_twice, Await_next (\<lambda>r. Return)])) = [0, 1]
   \<and> count_list (ran (snd (chain () [await_twice, Await_next (\<lambda>r. Return)]))) 1 = 1"
proof -
  have h: "\<forall>p\<in>set [Await_next (\<lambda>r. Return) :: unit prog]. calls_next_once p"
    by (simp add: calls_next_once.intros finishes.intros)
  from chain_double_invocation [where idx = 0 and s = "\<lparr>id_last = 0, ctx = (), ran = [0]\<rparr>"
      and c = "()" and rest = "[Await_next (\<lambda>r. Return)]"
      and middlewares = "[await_twice, Await_next (\<lambda>r. Return)]"] h
  show ?thesis by (simp add: upt_rec)
qed

text \<open>
  Counterexample to C1 as stated: an entry 0 that calls its continuation twice and
  ignores how the calls settle gives a chain that resolves; and with an entry 1 that
  does not call its continuation, entry 2 has not executed at all when the failure is
  observed.
\<close>

theorem chain_double_invocation_counterexample:
  "fst (chain () [Await_next (\<lambda>r. Await_next (\<lambda>r'. Return))]) = Resolved
   \<and> fst (chain () [await_twice, Return, Return]) = Rejected double_invocation
   \<and> count_list (ran (snd (chain () [await_twice, Return, Return]))) 2 = 0"
  by (simp add: chain_def dispatch.simps await_twice_def double_invocation_def)

section \<open>Helpers (src/shared.ts)\<close>

text \<open>
  \<^verbatim>\<open>upper\<close> is \<^verbatim>\<open>String.prototype.toUpperCase\<close>; the model maps the ASCII letters, which is
  all an HTTP method name holds, and leaves every other character as it is.
\<close>

definition upper_char :: "char \<Rightarrow> char" where
  "upper_char c =
     (case map_of (zip ''abcdefghijklmnopqrstuvwxyz'' ''ABCDEFGHIJKLMNOPQRSTUVWXYZ'') c of
        Some u \<Rightarrow> u
      | None \<Rightarrow> c)"

definition upper :: "string \<Rightarrow> string" where
  "upper str = map upper_char str"

text \<open>
  The built-in \<^verbatim>\<open>globalThis.decodeURIComponent\<close> is a parameter of the model: it returns
  the decoded string or throws (a \<^verbatim>\<open>URIError\<close> on a malformed escape sequence). The
  wrapper of shared.ts turns every exception into \<^verbatim>\<open>null\<close>, here \<open>None\<close>.
\<close>

type_synonym uri_decoder = "string \<Rightarrow> js_error + string"

definition decodeURIComponent :: "uri_decoder \<Rightarrow> string \<Rightarrow> string option" where
  "decodeURIComponent global_decode path =
     (case global_decode path of Inr decoded \<Rightarrow> Some decoded | Inl e \<Rightarrow> None)"

section \<open>Values, objects and the path library\<close>

text \<open>
  The values of type \<^verbatim>\<open>any\<close> that parameter objects and option objects hold. An object
  is the map from its property names to their values.
\<close>

datatype jsval =
    JUndefined
  | JNull
  | JBool bool
  | JNumber int
  | JString string
  | JArray "jsval list"
  | JObject "string \<Rightarrow> jsval option"

fun truthy :: "jsval \<Rightarrow> bool" where
  "truthy JUndefined = False"
| "truthy JNull = False"
| "truthy (JBool b) = b"
| "truthy (JNumber n) = (n \<noteq> 0)"
| "truthy (JString s) = (s \<noteq> [])"
| "truthy (JArray xs) = True"
| "truthy (JObject m) = True"

text \<open>Reading a property of a value that is not \<^verbatim>\<open>null\<close> or \<^verbatim>\<open>undefined\<close>.\<close>

fun get_prop :: "jsval \<Rightarrow> string \<Rightarrow> jsval" where
  "get_prop (JObject m) k = (case m k of Some v \<Rightarrow> v | None \<Rightarrow> JUndefined)"
| "get_prop v k = JUndefined"

text \<open>An array read: an index out of range reads \<^verbatim>\<open>undefined\<close>, here \<open>None\<close>.\<close>

definition js_nth :: "'a list \<Rightarrow> nat \<Rightarrow> 'a option" where
  "js_nth xs i = (if i < length xs then Some (xs ! i) else None)"

text \<open>
  \<^verbatim>\<open>Array.prototype.indexOf\<close>: the first index of an element strictly equal to the one
  looked for, or \<open>-1\<close>.
\<close>

fun indexOf :: "'a list \<Rightarrow> 'a \<Rightarrow> int" where
  "indexOf [] x = - 1"
| "indexOf (y # ys) x =
     (if y = x then 0 else (let i = indexOf ys x in if i = - 1 then - 1 else i + 1))"

text \<open>
  The name of a key of the path library is a string (a named parameter) or a number (an
  unnamed group). As a property name a number is its decimal numeral.
\<close>

datatype key_name = KString string | KNumber nat

function decimal :: "nat \<Rightarrow> string" where
  "decimal n =
     (let digit = ''0123456789'' ! (n mod 10)
      in if n div 10 = 0 then [digit] else decimal (n div 10) @ [digit])"
  by pat_completeness auto
termination
  by (relation "measure id") auto

declare decimal.simps [simp del]

fun prop_name :: "key_name \<Rightarrow> string" where
  "prop_name (KString s) = s"
| "prop_name (KNumber n) = decimal n"

fun truthy_name :: "key_name \<Rightarrow> bool" where
  "truthy_name (KString s) = (s \<noteq> [])"
| "truthy_name (KNumber n) = (n \<noteq> 0)"

text \<open>
  What the imported module path_to_regexp gives, as far as the router module uses it. The module
  is not part of the repository: its three functions are parameters of the model.
  \<^item> A compiled \<^verbatim>\<open>RegExp\<close> is the function from a path to the result of matching it:
    \<open>None\<close> for \<^verbatim>\<open>null\<close>, or the match array (the whole match, then one string per
    capture group; \<^verbatim>\<open>RegExpMatchArray\<close> is declared as an array of strings). The library
    compiles without the global and sticky flags, so matching keeps no state and
    \<^verbatim>\<open>regexp.test(path)\<close> holds exactly when \<^verbatim>\<open>path.match(regexp)\<close> is not \<^verbatim>\<open>null\<close>.
  \<^item> \<^verbatim>\<open>pathToRegexp(path, keys, opts)\<close> returns the \<^verbatim>\<open>RegExp\<close> and fills \<^verbatim>\<open>keys\<close>, or throws.
  \<^item> \<^verbatim>\<open>compile(url, opts)\<close> returns the function from a parameter object to a path.
  \<^item> \<^verbatim>\<open>parse(url)\<close> returns the tokens of a pattern: literal text or a key.
\<close>

type_synonym regexp = "string \<Rightarrow> string list option"

record lib_key =
  key_name :: key_name
  key_prefix :: string
  key_suffix :: string
  key_pattern :: string
  key_modifier :: string

datatype token = Text string | Param lib_key

datatype path_arg = StringPath string | RegExpPath string regexp

record RouteOptions =
  opt_name :: "string option"
  opt_ignoreCaptures :: bool
  opt_other :: "string \<Rightarrow> jsval option"

record path_to_regexp =
  lib_pathToRegexp :: "path_arg \<Rightarrow> RouteOptions \<Rightarrow> js_error + regexp \<times> lib_key list"
  lib_compile :: "string \<Rightarrow> jsval \<Rightarrow> js_error + (jsval \<Rightarrow> js_error + string)"
  lib_parse :: "string \<Rightarrow> js_error + token list"

section \<open>Route (src/unnamed/part_006)\<close>

text \<open>
  An entry of a middleware stack: a function without a \<^verbatim>\<open>param\<close> property (a regular
  handler), the wrapper that \<^verbatim>\<open>Route.param\<close> builds around a parameter middleware (its
  \<^verbatim>\<open>param\<close> property is the parameter's name), or a value that is not a function. The
  declared type of the entries is \<^verbatim>\<open>Middleware\<close>: an entry is never \<^verbatim>\<open>null\<close> or
  \<^verbatim>\<open>undefined\<close>.
\<close>

datatype 'f middleware = Handler 'f | ParamMiddleware string 'f | NonFunction

fun is_function :: "'f middleware \<Rightarrow> bool" where
  "is_function NonFunction = False"
| "is_function m = True"

text \<open>The property \<^verbatim>\<open>param\<close> of an entry, \<open>None\<close> for \<^verbatim>\<open>undefined\<close>.\<close>

fun param_of :: "'f middleware \<Rightarrow> string option" where
  "param_of (ParamMiddleware p fn) = Some p"
| "param_of m = None"

record 'f route =
  route_name :: "string option"
  route_methods :: "string list"
  route_keys :: "key_name list"
  route_stack :: "'f middleware list"
  route_opts :: RouteOptions
  route_path :: string
  route_regexp :: regexp

text \<open>
  The \<^verbatim>\<open>reduce\<close> of the constructor (``Map methods''). \<^verbatim>\<open>methods.includes('GET')\<close> looks
  at the list as it was passed, before any upper-casing.
\<close>

definition map_methods :: "string list \<Rightarrow> string list" where
  "map_methods methods =
     foldl (\<lambda>acc method.
              let method = upper method in
              if method \<noteq> ''HEAD'' \<and> ''GET'' \<notin> set methods then acc @ [method]
              else acc)
       [] methods"

text \<open>
  The constructor. \<^verbatim>\<open>middlewares\<close> is declared an array, so \<^verbatim>\<open>this.stack\<close> is the
  argument itself. \<^verbatim>\<open>opts.name\<close> counts as given when it is a non-empty string; only
  when it is not given are the entries of the stack checked. \<open>Route_build\<close> is the
  rest of the constructor: the methods, the compiled path and the names of its keys.
\<close>

definition has_name :: "RouteOptions \<Rightarrow> bool" where
  "has_name opts = (case opt_name opts of Some n \<Rightarrow> n \<noteq> [] | None \<Rightarrow> False)"

definition Route_build ::
  "path_to_regexp \<Rightarrow> path_arg \<Rightarrow> string list \<Rightarrow> 'f middleware list \<Rightarrow> RouteOptions
     \<Rightarrow> string option \<Rightarrow> js_error + 'f route" where
  "Route_build lib pth methods stack opts name =
     (case lib_pathToRegexp lib pth opts of
        Inl e \<Rightarrow> Inl e
      | Inr (re, keys) \<Rightarrow>
          Inr \<lparr>route_name = name,
               route_methods = map_methods methods,
               route_keys = map key_name keys,
               route_stack = stack,
               route_opts = opts,
               route_path = (case pth of RegExpPath source re' \<Rightarrow> source | StringPath s \<Rightarrow> s),
               route_regexp = re\<rparr>)"

definition Route_new ::
  "path_to_regexp \<Rightarrow> path_arg \<Rightarrow> string list \<Rightarrow> 'f middleware list \<Rightarrow> RouteOptions
     \<Rightarrow> js_error + 'f route" where
  "Route_new lib pth methods middlewares opts =
     (let stack = middlewares in
      if has_name opts then Route_build lib pth methods stack opts (opt_name opts)
      else if list_ex (\<lambda>fn. \<not> is_function fn) stack
      then Inl (Error ''Middleware is not a function'')
      else Route_build lib pth methods stack opts None)"

lemma Route_new_unfold:
  "Route_new lib pth methods middlewares opts =
     (if \<not> has_name opts \<and> list_ex (\<lambda>fn. \<not> is_function fn) middlewares
      then Inl (Error ''Middleware is not a function'')
      else
        (case lib_pathToRegexp lib pth opts of
           Inl e \<Rightarrow> Inl e
         | Inr (re, keys) \<Rightarrow>
             Inr \<lparr>route_name = (if has_name opts then opt_name opts else None),
                  route_methods = map_methods methods,
                  route_keys = map key_name keys,
                  route_stack = middlewares,
                  route_opts = opts,
                  route_path = (case pth of RegExpPath source re' \<Rightarrow> source | StringPath s \<Rightarrow> s),
                  route_regexp = re\<rparr>))"
  by (simp add: Route_new_def Route_build_def Let_def split: sum.splits)

text \<open>
  \<^verbatim>\<open>params(captures, params)\<close>. The loop carries the parameter object and a ghost list
  of the indices it has visited (each visit reads \<^verbatim>\<open>captures[i]\<close> and \<^verbatim>\<open>keys[i]\<close> and
  makes one assignment). A read out of range would give \<^verbatim>\<open>undefined\<close>, which the
  built-in decoder turns into the string \<^verbatim>\<open>"undefined"\<close> and which names the property
  \<^verbatim>\<open>"undefined"\<close>.
\<close>

definition decode_capture :: "uri_decoder \<Rightarrow> string option \<Rightarrow> jsval" where
  "decode_capture dec capture =
     (case capture of
        Some c \<Rightarrow> (case decodeURIComponent dec c of Some d \<Rightarrow> JString d | None \<Rightarrow> JString c)
      | None \<Rightarrow>
          (case decodeURIComponent dec ''undefined'' of Some d \<Rightarrow> JString d | None \<Rightarrow> JUndefined))"

definition key_prop :: "key_name option \<Rightarrow> string" where
  "key_prop k = (case k of Some n \<Rightarrow> prop_name n | None \<Rightarrow> ''undefined'')"

function params_loop ::
  "uri_decoder \<Rightarrow> key_name list \<Rightarrow> string list \<Rightarrow> nat \<Rightarrow> nat
     \<Rightarrow> (string \<Rightarrow> jsval option) \<times> nat list \<Rightarrow> (string \<Rightarrow> jsval option) \<times> nat list" where
  "params_loop dec keys captures len i (params, visited) =
     (if i < len then
        let capture = js_nth captures i in
        params_loop dec keys captures len (i + 1)
          (params(key_prop (js_nth keys i) \<mapsto> decode_capture dec capture), visited @ [i])
      else (params, visited))"
  by pat_completeness auto
termination
  by (relation "measure (\<lambda>(dec, keys, captures, len, i, acc). len - i)") auto

declare params_loop.simps [simp del]

definition params_run ::
  "uri_decoder \<Rightarrow> 'f route \<Rightarrow> string list \<Rightarrow> (string \<Rightarrow> jsval option)
     \<Rightarrow> (string \<Rightarrow> jsval option) \<times> nat list" where
  "params_run dec r captures params =
     (let keys = route_keys r;
          len = min (length (route_keys r)) (length captures)
      in params_loop dec keys captures len 0 (params, []))"

definition Route_params ::
  "uri_decoder \<Rightarrow> 'f route \<Rightarrow> string list \<Rightarrow> (string \<Rightarrow> jsval option) \<Rightarrow> (string \<Rightarrow> jsval option)" where
  "Route_params dec r captures params = fst (params_run dec r captures params)"

definition Route_match :: "'f route \<Rightarrow> string \<Rightarrow> bool" where
  "Route_match r p = (route_regexp r p \<noteq> None)"

definition Route_captures :: "'f route \<Rightarrow> string \<Rightarrow> string list" where
  "Route_captures r p =
     (let res = (if \<not> opt_ignoreCaptures (route_opts r)
                 then map_option (drop 1) (route_regexp r p) else None)
      in case res of Some groups \<Rightarrow> groups | None \<Rightarrow> [])"

text \<open>
  \<^verbatim>\<open>url(params, opts)\<close>. \<^verbatim>\<open>this.path.replace(/\(\.\*\)/g, '')\<close> removes every occurrence of
  the four characters \<^verbatim>\<open>(.*)\<close>. The names are those of all tokens, the literal ones
  included. In the branch for a query the first statement calls \<^verbatim>\<open>parseUrl\<close>, an
  identifier that the module neither defines nor imports: evaluating it throws a
  \<^verbatim>\<open>ReferenceError\<close> (as \<^verbatim>\<open>formatUrl\<close> and \<^verbatim>\<open>optis\<close> would further down).
\<close>

fun strip_wildcard :: "string \<Rightarrow> string" where
  "strip_wildcard [] = []"
| "strip_wildcard (c # cs) =
     (if take 4 (c # cs) = ''(.*)'' then strip_wildcard (drop 3 cs)
      else c # strip_wildcard cs)"

definition fill_replace :: "key_name list \<Rightarrow> jsval list \<Rightarrow> string \<Rightarrow> jsval option" where
  "fill_replace names ps =
     foldl (\<lambda>replace (name, i).
              replace(prop_name name \<mapsto> (case js_nth ps i of Some v \<Rightarrow> v | None \<Rightarrow> JUndefined)))
       Map.empty (zip names [0..<length names])"

definition Route_url :: "path_to_regexp \<Rightarrow> 'f route \<Rightarrow> jsval \<Rightarrow> jsval \<Rightarrow> js_error + string" where
  "Route_url lib r params opts_arg =
     (let opts = (if opts_arg = JUndefined then JObject Map.empty else opts_arg);
          url = strip_wildcard (route_path r)
      in
        case lib_compile lib url opts of
          Inl e \<Rightarrow> Inl e
        | Inr toPath \<Rightarrow>
            (case lib_parse lib url of
               Inl e \<Rightarrow> Inl e
             | Inr tokens \<Rightarrow>
                 let names = map (\<lambda>t. case t of Text s \<Rightarrow> KString s | Param k \<Rightarrow> key_name k) tokens;
                     (replace, opts) =
                       (case params of
                          JArray ps \<Rightarrow> (JObject (fill_replace names ps), opts)
                        | _ \<Rightarrow>
                            if list_ex truthy_name names then (params, opts)
                            else (JObject Map.empty, params))
                 in
                   (case toPath replace of
                      Inl e \<Rightarrow> Inl e
                    | Inr replaced \<Rightarrow>
                        if truthy opts \<and> truthy (get_prop opts ''query'')
                        then Inl (ReferenceError ''parseUrl is not defined'')
                        else Inr replaced)))"

text \<open>
  \<^verbatim>\<open>param(param, fn)\<close>. \<open>some_splice\<close> is the \<^verbatim>\<open>stack.some(...)\<close> loop: it stops at the
  first entry whose \<^verbatim>\<open>param\<close> property is falsy or names a key after position \<open>idx\<close>,
  and splices the new middleware in before it. When no entry stops the loop, nothing is
  spliced in.
\<close>

definition stops_at :: "key_name list \<Rightarrow> int \<Rightarrow> 'f middleware \<Rightarrow> bool" where
  "stops_at keys idx m =
     (case param_of m of
        None \<Rightarrow> True
      | Some p \<Rightarrow> p = [] \<or> indexOf keys (KString p) > idx)"

fun some_splice :: "key_name list \<Rightarrow> int \<Rightarrow> 'f middleware \<Rightarrow> 'f middleware list \<Rightarrow> 'f middleware list" where
  "some_splice keys idx middleware [] = []"
| "some_splice keys idx middleware (m # ms) =
     (if stops_at keys idx m then middleware # m # ms
      else m # some_splice keys idx middleware ms)"

definition Route_param :: "'f route \<Rightarrow> string \<Rightarrow> 'f \<Rightarrow> 'f route" where
  "Route_param r param fn =
     (let middleware = ParamMiddleware param fn;
          idx = indexOf (route_keys r) (KString param)
      in if idx \<noteq> - 1
         then r\<lparr>route_stack := some_splice (route_keys r) idx middleware (route_stack r)\<rparr>
         else r)"

section \<open>Router (src/unnamed/part_006)\<close>

text \<open>
  The private fields \<^verbatim>\<open>#prefix\<close>, \<^verbatim>\<open>#methods\<close>, \<^verbatim>\<open>#params\<close> and \<^verbatim>\<open>#stack\<close>; an entry of the
  stack is a bare middleware or a Route.
\<close>

datatype 'f entry = Bare "'f middleware" | ARoute "'f route"

record 'f router =
  router_prefix :: string
  router_methods :: "string list"
  router_params :: "string \<Rightarrow> 'f option"
  router_stack :: "'f entry list"

record RouterOptions =
  ropt_prefix :: "string option"
  ropt_methods :: "string list option"

definition METHODS :: "string list" where
  "METHODS = [''HEAD'', ''OPTIONS'', ''GET'', ''PUT'', ''PATCH'', ''POST'', ''DELETE'']"

definition Router_new :: "RouterOptions \<Rightarrow> 'f router" where
  "Router_new opts =
     \<lparr>router_prefix = (case ropt_prefix opts of Some p \<Rightarrow> p | None \<Rightarrow> []),
      router_methods = (case ropt_methods opts of Some ms \<Rightarrow> ms | None \<Rightarrow> METHODS),
      router_params = Map.empty,
      router_stack = []\<rparr>"


text \<open>\<^verbatim>\<open>new Route(name, methods, middlewares)\<close> is called without options: \<^verbatim>\<open>opts = {}\<close>.\<close>

definition no_options :: RouteOptions where
  "no_options = \<lparr>opt_name = None, opt_ignoreCaptures = False, opt_other = Map.empty\<rparr>"

definition Router_addRoute ::
  "path_to_regexp \<Rightarrow> 'f router \<Rightarrow> string \<Rightarrow> string list \<Rightarrow> 'f middleware list
     \<Rightarrow> js_error + 'f router" where
  "Router_addRoute lib rt name methods middlewares =
     (case Route_new lib (StringPath name) methods middlewares no_options of
        Inl e \<Rightarrow> Inl e
      | Inr r \<Rightarrow> Inr (rt\<lparr>router_stack := router_stack rt @ [ARoute r]\<rparr>))"

definition Router_get ::
  "path_to_regexp \<Rightarrow> 'f router \<Rightarrow> string \<Rightarrow> 'f middleware list \<Rightarrow> js_error + 'f router" where
  "Router_get lib rt name middlewares = Router_addRoute lib rt name [''GET''] middlewares"


text \<open>\<^verbatim>\<open>route(name)\<close>: \<^verbatim>\<open>find\<close> gives \<^verbatim>\<open>undefined\<close>, here \<open>None\<close>, when no entry qualifies.\<close>

definition Router_route :: "'f router \<Rightarrow> string \<Rightarrow> 'f route option" where
  "Router_route rt name =
     (case find (\<lambda>r. case r of ARoute r' \<Rightarrow> route_name r' = Some name | Bare m \<Rightarrow> False)
             (router_stack rt) of
        Some (ARoute r) \<Rightarrow> Some r
      | _ \<Rightarrow> None)"

text \<open>
  \<^verbatim>\<open>url(name, params, query)\<close>. The arguments of \<^verbatim>\<open>route.url(params, opts)\<close> are evaluated
  before the call, and \<^verbatim>\<open>opts\<close> names nothing in scope (the third parameter is called
  \<^verbatim>\<open>query\<close>): a \<^verbatim>\<open>ReferenceError\<close> is thrown and \<^verbatim>\<open>Route.url\<close> is not entered. The result
  \<open>Inr None\<close> is \<^verbatim>\<open>null\<close>.
\<close>

definition Router_url :: "'f router \<Rightarrow> string \<Rightarrow> jsval \<Rightarrow> jsval \<Rightarrow> js_error + string option" where
  "Router_url rt name params query =
     (case Router_route rt name of
        Some route \<Rightarrow> Inl (ReferenceError ''opts is not defined'')
      | None \<Rightarrow> Inr None)"

definition Router_param :: "'f router \<Rightarrow> string \<Rightarrow> 'f \<Rightarrow> 'f router" where
  "Router_param rt param middleware =
     rt\<lparr>router_params := (router_params rt)(param \<mapsto> middleware),
        router_stack :=
          map (\<lambda>route. case route of
                         ARoute r \<Rightarrow> ARoute (Route_param r param middleware)
                       | Bare m \<Rightarrow> Bare m)
            (router_stack rt)\<rparr>"

section \<open>Sample instances of the parameters\<close>

text \<open>
  The theorems below hold for every path library and every decoder. Their witnesses and
  the evaluations at concrete inputs need an instance: a library that knows the two
  patterns \<^verbatim>\<open>/users/:id\<close> and \<^verbatim>\<open>/a/:x/:y\<close> (one capture group per parameter, a parameter
  being a non-empty run of characters other than the delimiters) and throws on any
  other, the routes the constructor builds from them, and a decoder that rejects one
  malformed escape sequence and decodes one well-formed one.
\<close>

definition sample_key :: "string \<Rightarrow> lib_key" where
  "sample_key n = \<lparr>key_name = KString n, key_prefix = ''/'', key_suffix = [],
                    key_pattern = ''[^/#?]+?'', key_modifier = []\<rparr>"

definition sample_regexp :: regexp where
  "sample_regexp p =
     (let v = drop 7 p in
      if take 7 p = ''/users/'' \<and> v \<noteq> [] \<and> \<not> list_ex (\<lambda>c. c \<in> set ''/#?'') v
      then Some [p, v] else None)"

definition xy_regexp :: regexp where
  "xy_regexp p =
     (let x = takeWhile (\<lambda>c. c \<noteq> CHR ''/'') (drop 3 p);
          y = drop (4 + length x) p
      in if take 3 p = ''/a/'' \<and> x \<noteq> [] \<and> take 1 (drop (3 + length x) p) = ''/''
            \<and> y \<noteq> [] \<and> \<not> list_ex (\<lambda>c. c \<in> set ''/#?'') (x @ y)
         then Some [p, x, y] else None)"

definition sample_lib :: path_to_regexp where
  "sample_lib =
     \<lparr>lib_pathToRegexp = (\<lambda>pth opts.
         if pth = StringPath ''/users/:id'' then Inr (sample_regexp, [sample_key ''id''])
         else if pth = StringPath ''/a/:x/:y'' then Inr (xy_regexp, [sample_key ''x'', sample_key ''y''])
         else Inl (TypeError ''not a pattern of the sample'')),
      lib_compile = (\<lambda>url opts.
         if url = ''/users/:id'' then
           Inr (\<lambda>data.
             case get_prop data ''id'' of
               JString v \<Rightarrow> Inr (''/users/'' @ v)
             | _ \<Rightarrow> Inl (TypeError ''Expected id to be a string''))
         else Inl (TypeError ''not a pattern of the sample'')),
      lib_parse = (\<lambda>url.
         if url = ''/users/:id'' then Inr [Text ''/users'', Param (sample_key ''id'')]
         else Inl (TypeError ''not a pattern of the sample''))\<rparr>"

definition sample_route :: "'f middleware list \<Rightarrow> 'f route" where
  "sample_route stack =
     \<lparr>route_name = None, route_methods = [], route_keys = [KString ''id''],
      route_stack = stack, route_opts = no_options, route_path = ''/users/:id'',
      route_regexp = sample_regexp\<rparr>"

lemma sample_route_sel [simp]:
  "route_keys (sample_route stack) = [KString ''id'']"
  "route_stack (sample_route stack) = stack"
  "route_regexp (sample_route stack) = sample_regexp"
  "route_opts (sample_route stack) = no_options"
  "route_name (sample_route stack) = None"
  "route_methods (sample_route stack) = []"
  by (simp_all add: sample_route_def)

definition sample_decode :: uri_decoder where
  "sample_decode s =
     (if s = ''%E0%A4%A'' then Inl (URIError ''URI malformed'')
      else if s = ''a%20b'' then Inr ''a b'' else Inr s)"

definition xy_route :: "'f middleware list \<Rightarrow> 'f route" where
  "xy_route stack =
     \<lparr>route_name = None, route_methods = [], route_keys = [KString ''x'', KString ''y''],
      route_stack = stack, route_opts = no_options, route_path = ''/a/:x/:y'',
      route_regexp = xy_regexp\<rparr>"

lemma xy_route_sel [simp]:
  "route_keys (xy_route stack) = [KString ''x'', KString ''y'']"
  "route_stack (xy_route stack) = stack"
  by (simp_all add: xy_route_def)

section \<open>Parameter extraction\<close>

lemma params_loop_fold:
  "len \<le> length keys \<Longrightarrow> len \<le> length captures \<Longrightarrow>
   params_loop dec keys captures len i (m, v) =
     (foldl (\<lambda>m j. m(prop_name (keys ! j) \<mapsto> decode_capture dec (Some (captures ! j)))) m [i..<len],
      v @ [i..<len])"
proof (induction dec keys captures len i "(m, v)" arbitrary: m v rule: params_loop.induct)
  case (1 dec keys captures len i params visited)
  show ?case
  proof (cases "i < len")
    case True
    with "1.prems" have k: "js_nth keys i = Some (keys ! i)" and c: "js_nth captures i = Some (captures ! i)"
      by (simp_all add: js_nth_def)
    from True have "[i..<len] = i # [Suc i..<len]" by (simp add: upt_conv_Cons)
    with "1.hyps" [OF True refl "1.prems"] True k c show ?thesis
      by (subst params_loop.simps) (simp add: key_prop_def)
  next
    case False
    then show ?thesis by (subst params_loop.simps) simp
  qed
qed

lemma fold_assign_other:
  "k \<notin> f ` set js \<Longrightarrow> foldl (\<lambda>m j. m(f j \<mapsto> g j)) m js k = m k"
  by (induction js arbitrary: m) auto

lemma fold_assign_dom:
  "dom (foldl (\<lambda>m j. m(f j \<mapsto> g j)) m js) = dom m \<union> f ` set js"
  by (induction js arbitrary: m) auto

lemma fold_assign_last:
  "i < n \<Longrightarrow> (\<forall>j. i < j \<and> j < n \<longrightarrow> f j \<noteq> f i) \<Longrightarrow>
   foldl (\<lambda>m j. m(f j \<mapsto> g j)) m [0..<n] (f i) = Some (g i)"
proof (induction n)
  case 0
  then show ?case by simp
next
  case (Suc n)
  have step: "foldl (\<lambda>m j. m(f j \<mapsto> g j)) m [0..<Suc n] =
      (foldl (\<lambda>m j. m(f j \<mapsto> g j)) m [0..<n])(f n \<mapsto> g n)"
    by (simp del: fun_upd_apply)
  show ?case
  proof (cases "i = n")
    case True
    then show ?thesis unfolding step by (simp only: fun_upd_same)
  next
    case False
    with Suc.prems have lt: "i < n" by simp
    from Suc.prems have later: "\<forall>j. i < j \<and> j < n \<longrightarrow> f j \<noteq> f i" by simp
    from Suc.prems lt have "f n \<noteq> f i" by simp
    then have ne: "f i \<noteq> f n" by (rule not_sym)
    have "foldl (\<lambda>m j. m(f j \<mapsto> g j)) m [0..<n] (f i) = Some (g i)"
      using lt later by (rule Suc.IH)
    then show ?thesis unfolding step by (simp only: fun_upd_other [OF ne])
  qed
qed

lemma take_as_map:
  "take n xs = map (\<lambda>j. xs ! j) [0..<min (length xs) n]"
  by (rule nth_equalityI) simp_all

lemma params_run_fold:
  "params_run dec r captures params =
     (foldl (\<lambda>m j. m(prop_name (route_keys r ! j) \<mapsto> decode_capture dec (Some (captures ! j))))
        params [0..<min (length (route_keys r)) (length captures)],
      [0..<min (length (route_keys r)) (length captures)])"
  unfolding params_run_def Let_def by (subst params_loop_fold) simp_all

text \<open>
  C5. For a declared parameter name at position \<open>i\<close> with a capture at the same
  position (and no later position, among those with a capture, naming the same
  property), \<^verbatim>\<open>params\<close> stores under that name the percent-decoded capture, and the raw
  capture when the decoder throws. The function has no failing branch: the result is a
  parameter object for every decoder.
\<close>

theorem params_decode_or_raw:
  assumes "i < length (route_keys r)" and "i < length captures"
    and "\<forall>j. i < j \<and> j < length (route_keys r) \<and> j < length captures \<longrightarrow>
           prop_name (route_keys r ! j) \<noteq> prop_name (route_keys r ! i)"
  shows "Route_params dec r captures params (prop_name (route_keys r ! i)) =
     Some (JString (case dec (captures ! i) of Inr decoded \<Rightarrow> decoded | Inl e \<Rightarrow> captures ! i))"
proof -
  let ?n = "min (length (route_keys r)) (length captures)"
  from assms(1,2) have "i < ?n" by simp
  moreover from assms(3) have
    "\<forall>j. i < j \<and> j < ?n \<longrightarrow> prop_name (route_keys r ! j) \<noteq> prop_name (route_keys r ! i)"
    by simp
  ultimately have "foldl (\<lambda>m j. m(prop_name (route_keys r ! j) \<mapsto> decode_capture dec (Some (captures ! j))))
        params [0..<?n] (prop_name (route_keys r ! i)) = Some (decode_capture dec (Some (captures ! i)))"
    by (rule fold_assign_last)
  then show ?thesis
    by (simp add: Route_params_def params_run_fold decode_capture_def decodeURIComponent_def
        split: sum.splits)
qed

text \<open>
  Witness for C5: the capture \<^verbatim>\<open>%E0%A4%A\<close>, which the sample decoder rejects, is stored as
  it is; the capture \<^verbatim>\<open>a%20b\<close> is stored decoded.
\<close>

theorem params_decode_or_raw_witness:
  "Route_params sample_decode (sample_route []) [''%E0%A4%A''] Map.empty ''id'' =
     Some (JString ''%E0%A4%A'')
   \<and> Route_params sample_decode (sample_route []) [''a%20b''] Map.empty ''id'' =
     Some (JString ''a b'')"
proof -
  have g2: "0 < length [''a%20b'']" by simp
  have g3: "\<forall>j. 0 < j \<and> j < length (route_keys (sample_route [])) \<and> j < length [''a%20b''] \<longrightarrow>
      prop_name (route_keys (sample_route []) ! j) \<noteq> prop_name (route_keys (sample_route []) ! 0)"
    by auto
  have h1: "0 < length (route_keys (sample_route []))" by simp
  have h2: "0 < length [''%E0%A4%A'']" by simp
  have h3: "\<forall>j. 0 < j \<and> j < length (route_keys (sample_route [])) \<and> j < length [''%E0%A4%A''] \<longrightarrow>
      prop_name (route_keys (sample_route []) ! j) \<noteq> prop_name (route_keys (sample_route []) ! 0)"
    by auto
  from params_decode_or_raw [OF h1 h2 h3, of sample_decode Map.empty]
    params_decode_or_raw [OF h1 g2 g3, of sample_decode Map.empty]
  show ?thesis by (simp add: sample_decode_def)
qed

text \<open>
  C10. Whatever the lengths of the captures and of the declared names,
  \<^verbatim>\<open>params\<close> terminates, visits exactly the indices below the smaller of the two lengths
  (one assignment each), so every index it reads is within both arrays; the properties
  of the result are those of the existing object and the visited names, and every
  property that is not a visited name keeps the value it had.
\<close>

theorem params_total_in_bounds:
  "snd (params_run dec r captures params) = [0..<min (length (route_keys r)) (length captures)]
   \<and> length (snd (params_run dec r captures params)) = min (length (route_keys r)) (length captures)
   \<and> (\<forall>i\<in>set (snd (params_run dec r captures params)).
         i < length captures \<and> i < length (route_keys r))
   \<and> dom (Route_params dec r captures params) =
         dom params \<union> prop_name ` set (take (length captures) (route_keys r))
   \<and> (\<forall>k. k \<notin> prop_name ` set (take (length captures) (route_keys r)) \<longrightarrow>
         Route_params dec r captures params k = params k)"
proof -
  define n where "n = min (length (route_keys r)) (length captures)"
  define f where "f = (\<lambda>j. prop_name (route_keys r ! j))"
  define g where "g = (\<lambda>j. decode_capture dec (Some (captures ! j)))"
  define res where "res = foldl (\<lambda>m j. m(f j \<mapsto> g j)) params [0..<n]"
  have run: "params_run dec r captures params = (res, [0..<n])"
    by (simp only: params_run_fold res_def n_def f_def g_def)
  have img: "f ` set [0..<n] = prop_name ` set (take (length captures) (route_keys r))"
  proof -
    have "take (length captures) (route_keys r) = map (\<lambda>j. route_keys r ! j) [0..<n]"
      unfolding n_def by (rule take_as_map)
    then have "prop_name ` set (take (length captures) (route_keys r)) =
        prop_name ` set (map (\<lambda>j. route_keys r ! j) [0..<n])" by (rule arg_cong)
    also have "\<dots> = f ` set [0..<n]" unfolding f_def by (simp only: set_map image_image)
    finally show ?thesis by (rule sym)
  qed
  have bounds: "\<forall>i\<in>set [0..<n]. i < length captures \<and> i < length (route_keys r)"
    by (simp add: n_def)
  have "dom res = dom params \<union> f ` set [0..<n]"
    by (simp only: res_def fold_assign_dom)
  then have d: "dom res = dom params \<union> prop_name ` set (take (length captures) (route_keys r))"
    by (simp only: img)
  have o: "\<forall>k. k \<notin> prop_name ` set (take (length captures) (route_keys r)) \<longrightarrow> res k = params k"
  proof (intro allI impI)
    fix k
    assume "k \<notin> prop_name ` set (take (length captures) (route_keys r))"
    then have "k \<notin> f ` set [0..<n]" unfolding img .
    then show "res k = params k" unfolding res_def by (rule fold_assign_other)
  qed
  have len: "length [0..<n] = n" by simp
  show ?thesis
    unfolding Route_params_def run fst_conv snd_conv n_def [symmetric]
    by (intro conjI refl bounds d o len)
qed

text \<open>
  Witness for C10: one declared name, two captures, and an existing property
  \<^verbatim>\<open>page\<close>.
\<close>

theorem params_total_in_bounds_witness:
  "snd (params_run sample_decode (sample_route []) [''42'', ''extra''] [''page'' \<mapsto> JNumber 1]) = [0]
   \<and> Route_params sample_decode (sample_route []) [''42'', ''extra''] [''page'' \<mapsto> JNumber 1] ''page''
       = Some (JNumber 1)"
proof -
  note t = params_total_in_bounds [of sample_decode "sample_route []" "[''42'', ''extra'']"
      "[''page'' \<mapsto> JNumber 1]"]
  from t [THEN conjunct1]
  have a: "snd (params_run sample_decode (sample_route []) [''42'', ''extra''] [''page'' \<mapsto> JNumber 1]) = [0]"
    by simp
  from t [THEN conjunct2, THEN conjunct2, THEN conjunct2, THEN conjunct2, rule_format, of "''page''"]
  have "Route_params sample_decode (sample_route []) [''42'', ''extra''] [''page'' \<mapsto> JNumber 1] ''page''
        = [''page'' \<mapsto> JNumber 1] ''page''"
    by simp
  then have b: "Route_params sample_decode (sample_route []) [''42'', ''extra''] [''page'' \<mapsto> JNumber 1] ''page''
        = Some (JNumber 1)"
    by simp
  from a b show ?thesis by (rule conjI)
qed

section \<open>Captures\<close>

text \<open>
  What the model asks of \<^verbatim>\<open>pathToRegexp\<close>: the match array of the \<^verbatim>\<open>RegExp\<close> it returns
  holds the whole match and one group per key it reports.
\<close>

definition one_group_per_key :: "path_to_regexp \<Rightarrow> bool" where
  "one_group_per_key lib =
     (\<forall>pth opts re keys p m.
        lib_pathToRegexp lib pth opts = Inr (re, keys) \<longrightarrow> re p = Some m \<longrightarrow>
        length m = Suc (length keys))"

lemma Route_new_Inr:
  assumes "Route_new lib pth methods middlewares opts = Inr r"
  obtains re keys where "lib_pathToRegexp lib pth opts = Inr (re, keys)"
    and "route_regexp r = re" and "route_keys r = map key_name keys"
    and "route_opts r = opts" and "route_stack r = middlewares"
  using assms by (auto simp: Route_new_unfold Let_def split: if_splits sum.splits)

text \<open>
  C4. For a route built by the constructor from a library with one group per key, with
  capture collection not disabled: whenever \<^verbatim>\<open>match(path)\<close> is true, \<^verbatim>\<open>captures(path)\<close>
  has as many values as the route has keys, and they are the groups of the match in
  order (the match array is the whole match followed by the captures).
\<close>

theorem captures_count:
  assumes "one_group_per_key lib"
    and "Route_new lib pth methods middlewares opts = Inr r"
    and "\<not> opt_ignoreCaptures opts"
    and "Route_match r p"
  shows "length (Route_captures r p) = length (route_keys r)
    \<and> (\<exists>whole. route_regexp r p = Some (whole # Route_captures r p))"
proof -
  from assms(2) obtain re keys where lib: "lib_pathToRegexp lib pth opts = Inr (re, keys)"
    and re: "route_regexp r = re" and ks: "route_keys r = map key_name keys"
    and op: "route_opts r = opts"
    by (rule Route_new_Inr)
  from assms(4) re obtain m where m: "re p = Some m" by (auto simp: Route_match_def)
  with assms(1) lib have len: "length m = Suc (length keys)"
    unfolding one_group_per_key_def by blast
  then obtain whole groups where split: "m = whole # groups" by (cases m) simp_all
  from m re op assms(3) split have "Route_captures r p = groups"
    by (simp add: Route_captures_def)
  with len split ks m re show ?thesis by simp
qed

lemma sample_lib_one_group: "one_group_per_key sample_lib"
  by (auto simp: one_group_per_key_def sample_lib_def sample_regexp_def xy_regexp_def Let_def
      split: if_splits)

lemma map_methods_eq:
  "map_methods methods =
     (if ''GET'' \<in> set methods then []
      else filter (\<lambda>method. method \<noteq> ''HEAD'') (map upper methods))"
proof -
  have "foldl (\<lambda>acc method.
              let method = upper method in
              if method \<noteq> ''HEAD'' \<and> ''GET'' \<notin> set methods then acc @ [method]
              else acc) acc ms =
        acc @ (if ''GET'' \<in> set methods then []
               else filter (\<lambda>method. method \<noteq> ''HEAD'') (map upper ms))" for acc ms
    by (induction ms arbitrary: acc) (simp_all add: Let_def)
  then show ?thesis by (simp add: map_methods_def)
qed

lemma map_methods_GET: "''GET'' \<in> set methods \<Longrightarrow> map_methods methods = []"
proof -
  assume g: "''GET'' \<in> set methods"
  have "foldl (\<lambda>acc method.
              let method = upper method in
              if method \<noteq> ''HEAD'' \<and> ''GET'' \<notin> set methods then acc @ [method]
              else acc) acc ms = acc" for acc ms
    using g by (induction ms arbitrary: acc) (simp_all add: Let_def)
  then show ?thesis by (simp add: map_methods_def)
qed

lemma sample_route_new:
  "list_all is_function stack \<Longrightarrow>
   Route_new sample_lib (StringPath ''/users/:id'') [''GET''] stack no_options = Inr (sample_route stack)"
  by (simp add: Route_new_unfold sample_lib_def no_options_def sample_route_def sample_key_def
      map_methods_GET list_ex_iff list_all_iff)

lemma xy_route_new:
  "list_all is_function stack \<Longrightarrow>
   Route_new sample_lib (StringPath ''/a/:x/:y'') [''GET''] stack no_options = Inr (xy_route stack)"
  by (simp add: Route_new_unfold sample_lib_def no_options_def xy_route_def sample_key_def
      map_methods_GET list_ex_iff list_all_iff has_name_def)

text \<open>
  Witness for C4: \<^verbatim>\<open>/users/42\<close> against the route for \<^verbatim>\<open>/users/:id\<close>.
\<close>

theorem captures_count_witness:
  "Route_match (sample_route [Handler ()]) ''/users/42''
   \<and> length (Route_captures (sample_route [Handler ()]) ''/users/42'') = 1"
proof -
  have new: "Route_new sample_lib (StringPath ''/users/:id'') [''GET''] [Handler ()] no_options
      = Inr (sample_route [Handler ()])"
    by (rule sample_route_new) simp
  have ic: "\<not> opt_ignoreCaptures no_options" by (simp add: no_options_def)
  have mt: "Route_match (sample_route [Handler ()]) ''/users/42''"
    by (simp add: Route_match_def sample_regexp_def Let_def)
  from captures_count [OF sample_lib_one_group new ic mt] mt show ?thesis
    by simp
qed

section \<open>The constructor: methods and the middleware check\<close>

text \<open>
  C3 (the code at the failing input). A route declared with the method list
  \<^verbatim>\<open>['GET']\<close> ends with an empty method list: the \<^verbatim>\<open>reduce\<close> pushes a method only when
  the declared list does not include \<^verbatim>\<open>'GET'\<close>, so neither \<^verbatim>\<open>GET\<close> nor \<^verbatim>\<open>HEAD\<close> is among
  the route's methods.
\<close>

theorem route_GET_has_no_methods:
  "map_methods [''GET''] = []
   \<and> ''GET'' \<notin> set (map_methods [''GET''])
   \<and> ''HEAD'' \<notin> set (map_methods [''GET''])
   \<and> map_sum id route_methods
        (Route_new sample_lib (StringPath ''/users/:id'') [''GET''] [Handler ()] no_options) = Inr []"
proof -
  have m: "map_methods [''GET''] = []" by (rule map_methods_GET) simp
  show ?thesis
    by (simp add: m Route_new_unfold sample_lib_def no_options_def)
qed

text \<open>
  C8 (as amended). Construction fails with the error ``Middleware is not a function''
  when the list holds an entry that is not a function and no name option is given. When
  a (non-empty) name is given the check is not made: the constructor goes on to
  compile the path, and when that succeeds the route holds the list as it was passed.
\<close>

theorem middleware_check_unless_named:
  "(\<not> has_name opts \<and> list_ex (\<lambda>fn. \<not> is_function fn) middlewares \<longrightarrow>
      Route_new lib pth methods middlewares opts = Inl (Error ''Middleware is not a function''))
   \<and> (has_name opts \<and> lib_pathToRegexp lib pth opts = Inr (re, keys) \<longrightarrow>
        map_sum id route_stack (Route_new lib pth methods middlewares opts) = Inr middlewares
        \<and> map_sum id route_name (Route_new lib pth methods middlewares opts) = Inr (opt_name opts))
   \<and> (has_name opts \<and> lib_pathToRegexp lib pth opts = Inl e \<longrightarrow>
        Route_new lib pth methods middlewares opts = Inl e)"
  by (simp add: Route_new_unfold)

text \<open>
  Witness for C8: the same list with an entry that is not a function, first without a
  name, then with one.
\<close>

theorem middleware_check_unless_named_witness:
  "Route_new sample_lib (StringPath ''/users/:id'') [''GET''] [Handler ''show'', NonFunction] no_options
     = Inl (Error ''Middleware is not a function'')
   \<and> map_sum id route_stack
        (Route_new sample_lib (StringPath ''/users/:id'') [''GET''] [Handler ''show'', NonFunction]
           (no_options\<lparr>opt_name := Some ''user''\<rparr>)) = Inr [Handler ''show'', NonFunction]"
proof -
  have a: "\<not> has_name no_options \<and> list_ex (\<lambda>fn. \<not> is_function fn) [Handler ''show'', NonFunction]"
    by (simp add: has_name_def no_options_def)
  have b: "has_name (no_options\<lparr>opt_name := Some ''user''\<rparr>)
      \<and> lib_pathToRegexp sample_lib (StringPath ''/users/:id'') (no_options\<lparr>opt_name := Some ''user''\<rparr>)
          = Inr (sample_regexp, [sample_key ''id''])"
    by (simp add: has_name_def sample_lib_def)
  from middleware_check_unless_named [THEN conjunct1, rule_format, OF a]
    middleware_check_unless_named [THEN conjunct2, THEN conjunct1, rule_format, OF b, THEN conjunct1]
  show ?thesis by (rule conjI)
qed

text \<open>
  Counterexample to C8 as stated: with the name option \<^verbatim>\<open>user\<close>, a list whose only entry
  is not a function is accepted and becomes the stack of the route.
\<close>

theorem named_route_skips_middleware_check:
  "map_sum id route_stack
     (Route_new sample_lib (StringPath ''/users/:id'') [''GET''] [NonFunction :: string middleware]
        (no_options\<lparr>opt_name := Some ''user''\<rparr>)) = Inr [NonFunction]"
  by (simp add: Route_new_unfold has_name_def sample_lib_def)

section \<open>Parameter interceptors\<close>

text \<open>
  The order the scan keeps. The rank of an entry is the position of the key its \<^verbatim>\<open>param\<close>
  property names, and the number of keys for an entry the scan takes for a regular
  handler. A stack sorted by rank has its interceptors in the order of the keys and
  before every regular handler.
\<close>

definition rank :: "key_name list \<Rightarrow> 'f middleware \<Rightarrow> int" where
  "rank keys m =
     (case param_of m of
        None \<Rightarrow> int (length keys)
      | Some p \<Rightarrow> if p = [] then int (length keys) else indexOf keys (KString p))"

lemma indexOf_range: "- 1 \<le> indexOf xs x \<and> indexOf xs x < int (length xs)"
  by (induction xs) (auto simp: Let_def)

lemma rank_upper: "rank keys m \<le> int (length keys)"
  using indexOf_range [of keys] by (auto simp: rank_def split: option.splits intro: less_imp_le)

lemma stops_at_rank: "idx < int (length keys) \<Longrightarrow> stops_at keys idx m = (idx < rank keys m)"
  by (auto simp: stops_at_def rank_def split: option.splits)

lemma some_splice_set: "set (some_splice keys idx mw stack) \<subseteq> insert mw (set stack)"
  by (induction stack) auto

lemma some_splice_sorted:
  assumes "idx < int (length keys)" and "rank keys mw = idx"
  shows "sorted (map (rank keys) stack) \<Longrightarrow> sorted (map (rank keys) (some_splice keys idx mw stack))"
proof (induction stack)
  case Nil
  then show ?case by simp
next
  case (Cons m ms)
  show ?case
  proof (cases "stops_at keys idx m")
    case True
    with assms have "rank keys mw \<le> rank keys m" by (simp add: stops_at_rank)
    with True Cons.prems show ?thesis by auto
  next
    case False
    with assms have le: "rank keys m \<le> rank keys mw" by (simp add: stops_at_rank)
    from Cons.prems have "sorted (map (rank keys) ms)" by simp
    then have "sorted (map (rank keys) (some_splice keys idx mw ms))" by (rule Cons.IH)
    moreover have "rank keys m \<le> rank keys x" if "x \<in> set (some_splice keys idx mw ms)" for x
      using that some_splice_set [of keys idx mw ms] le Cons.prems by auto
    ultimately show ?thesis using False by auto
  qed
qed

lemma some_splice_places:
  "some_splice keys idx mw stack =
     (if list_ex (stops_at keys idx) stack
      then takeWhile (\<lambda>m. \<not> stops_at keys idx m) stack @ mw #
           dropWhile (\<lambda>m. \<not> stops_at keys idx m) stack
      else stack)"
  by (induction stack) auto

lemma handlers_sorted:
  "\<forall>m\<in>set stack. param_of m = None \<Longrightarrow> sorted (map (rank keys) stack)"
proof -
  assume "\<forall>m\<in>set stack. param_of m = None"
  then have "map (rank keys) stack = replicate (length stack) (int (length keys))"
    by (induction stack) (simp_all add: rank_def)
  then show ?thesis by (simp add: sorted_replicate)
qed

lemma sorted_rank_handlers_last:
  assumes "sorted (map (rank keys) stack)" and "i < j" and "j < length stack"
    and "param_of (stack ! i) = None"
  shows "param_of (stack ! j) = None \<or> param_of (stack ! j) = Some []"
proof (cases "param_of (stack ! j)")
  case None
  then show ?thesis by simp
next
  case (Some p)
  from assms(1-3) have "rank keys (stack ! i) \<le> rank keys (stack ! j)"
    by (simp add: sorted_iff_nth_mono)
  with assms(4) Some have "p \<noteq> [] \<longrightarrow> int (length keys) \<le> indexOf keys (KString p)"
    by (auto simp: rank_def)
  with indexOf_range [of keys "KString p"] have "p = []" by auto
  with Some show ?thesis by simp
qed

lemma sorted_rank_interceptors_in_order:
  assumes "sorted (map (rank keys) stack)" and "i < j" and "j < length stack"
    and "param_of (stack ! i) = Some p" and "p \<noteq> []"
    and "param_of (stack ! j) = Some q" and "q \<noteq> []"
  shows "indexOf keys (KString p) \<le> indexOf keys (KString q)"
proof -
  from assms(1-3) have "rank keys (stack ! i) \<le> rank keys (stack ! j)"
    by (simp add: sorted_iff_nth_mono)
  with assms(4-7) show ?thesis by (simp add: rank_def)
qed

lemma Route_param_keeps_order:
  assumes "param \<noteq> []" and "sorted (map (rank (route_keys r)) (route_stack r))"
  shows "sorted (map (rank (route_keys (Route_param r param fn))) (route_stack (Route_param r param fn)))"
    and "route_keys (Route_param r param fn) = route_keys r"
proof -
  let ?idx = "indexOf (route_keys r) (KString param)"
  show k: "route_keys (Route_param r param fn) = route_keys r"
    by (simp add: Route_param_def Let_def)
  have "rank (route_keys r) (ParamMiddleware param fn) = ?idx"
    using assms(1) by (simp add: rank_def)
  moreover have "?idx < int (length (route_keys r))"
    using indexOf_range [of "route_keys r" "KString param"] by simp
  ultimately have "sorted (map (rank (route_keys r))
      (some_splice (route_keys r) ?idx (ParamMiddleware param fn) (route_stack r)))"
    using assms(2) by (intro some_splice_sorted)
  with assms(2) show "sorted (map (rank (route_keys (Route_param r param fn)))
      (route_stack (Route_param r param fn)))"
    by (simp add: Route_param_def Let_def)
qed

lemma Route_param_inserts:
  assumes "indexOf (route_keys r) (KString param) \<noteq> - 1"
    and "list_ex (\<lambda>m. param_of m = None) (route_stack r)"
  shows "route_stack (Route_param r param fn) =
     takeWhile (\<lambda>m. \<not> stops_at (route_keys r) (indexOf (route_keys r) (KString param)) m) (route_stack r)
     @ ParamMiddleware param fn #
     dropWhile (\<lambda>m. \<not> stops_at (route_keys r) (indexOf (route_keys r) (KString param)) m) (route_stack r)"
proof -
  from assms(2) obtain m where "m \<in> set (route_stack r)" and "param_of m = None"
    by (auto simp: list_ex_iff)
  then have "list_ex (stops_at (route_keys r) (indexOf (route_keys r) (KString param))) (route_stack r)"
    unfolding list_ex_iff by (intro bexI [of _ m]) (simp_all add: stops_at_def)
  with assms(1) show ?thesis
    by (simp add: Route_param_def Let_def some_splice_places)
qed

lemma Route_param_handlers:
  "filter (\<lambda>m. param_of m = None) (route_stack (Route_param r param fn)) =
   filter (\<lambda>m. param_of m = None) (route_stack r)"
proof -
  have "filter (\<lambda>m. param_of m = None) (some_splice keys idx (ParamMiddleware param fn) stack) =
        filter (\<lambda>m. param_of m = None) stack" for keys idx and stack :: "'a middleware list"
    by (induction stack) auto
  then show ?thesis by (simp add: Route_param_def Let_def)
qed

lemma Route_param_empty_stack:
  "route_stack r = [] \<Longrightarrow> route_stack (Route_param r param fn) = []"
  by (simp add: Route_param_def Let_def)

text \<open>
  A sequence of registrations, in the order of the calls of \<^verbatim>\<open>param\<close>. Whatever that order,
  a sorted stack stays sorted, and the regular handlers stay as they were.
\<close>

fun param_all :: "'f route \<Rightarrow> (string \<times> 'f) list \<Rightarrow> 'f route" where
  "param_all r [] = r"
| "param_all r ((param, fn) # regs) = param_all (Route_param r param fn) regs"

lemma param_all_keeps_order:
  assumes "\<forall>(param, fn)\<in>set regs. param \<noteq> []"
    and "sorted (map (rank (route_keys r)) (route_stack r))"
  shows "sorted (map (rank (route_keys r)) (route_stack (param_all r regs)))
    \<and> route_keys (param_all r regs) = route_keys r
    \<and> filter (\<lambda>m. param_of m = None) (route_stack (param_all r regs)) =
        filter (\<lambda>m. param_of m = None) (route_stack r)"
  using assms
proof (induction regs arbitrary: r)
  case Nil
  then show ?case by simp
next
  case (Cons reg regs)
  obtain param fn where reg: "reg = (param, fn)" by (cases reg)
  with Cons.prems have ne: "param \<noteq> []" by simp
  note step = Route_param_keeps_order [OF ne Cons.prems(2), of fn]
  from Cons.prems(1) have "\<forall>(param, fn)\<in>set regs. param \<noteq> []" by simp
  from Cons.IH [OF this step(1)] step(2) show ?case
    by (simp add: reg Route_param_handlers)
qed

text \<open>
  C2 (the code at the failing input). On a route for \<^verbatim>\<open>/a/:x/:y\<close> without handlers the
  scan of the stack finds no position, and the interceptor is not added at all: after
  registering \<^verbatim>\<open>x\<close>, or \<^verbatim>\<open>y\<close> then \<^verbatim>\<open>x\<close>, the stack is still empty. With one handler
  in the stack the same registrations give the interceptor of \<^verbatim>\<open>x\<close>, then that of \<^verbatim>\<open>y\<close>,
  then the handler.
\<close>

theorem param_on_empty_stack_is_dropped:
  "Route_new sample_lib (StringPath ''/a/:x/:y'') [''GET''] [] no_options = Inr (xy_route [])
   \<and> route_stack (Route_param (xy_route []) ''x'' ''loadX'') = []
   \<and> route_stack (Route_param (Route_param (xy_route []) ''y'' ''loadY'') ''x'' ''loadX'') = []
   \<and> route_stack (Route_param (Route_param (xy_route [Handler ''show'']) ''y'' ''loadY'') ''x'' ''loadX'')
       = [ParamMiddleware ''x'' ''loadX'', ParamMiddleware ''y'' ''loadY'', Handler ''show'']"
  by (simp add: xy_route_new Route_param_def stops_at_def)


text \<open>
  C6 (the code at the failing input). \<^verbatim>\<open>Router.param\<close> records the middleware in
  \<^verbatim>\<open>#params\<close>, but \<^verbatim>\<open>addRoute\<close> never reads \<^verbatim>\<open>#params\<close>: a route for \<^verbatim>\<open>/users/:id\<close> added
  after the registration for \<^verbatim>\<open>id\<close> holds its handler only, while the same route added
  before the registration receives the interceptor.
\<close>

theorem param_not_applied_to_later_route:
  "map_sum id router_stack
     (Router_get sample_lib (Router_param (Router_new \<lparr>ropt_prefix = None, ropt_methods = None\<rparr>) ''id'' ''load'')
        ''/users/:id'' [Handler ''show''])
     = Inr [ARoute (sample_route [Handler ''show''])]
   \<and> map_sum id (\<lambda>rt. router_stack (Router_param rt ''id'' ''load''))
       (Router_get sample_lib (Router_new \<lparr>ropt_prefix = None, ropt_methods = None\<rparr>)
          ''/users/:id'' [Handler ''show''])
     = Inr [ARoute (sample_route [ParamMiddleware ''id'' ''load'', Handler ''show''])]"
  by (simp add: Router_get_def Router_addRoute_def sample_route_new Router_param_def Router_new_def
      Route_param_def stops_at_def sample_route_def)

section \<open>Reverse URL generation\<close>

lemma Route_url_query:
  assumes "lib_compile lib (strip_wildcard (route_path r)) opts = Inr toPath"
    and "lib_parse lib (strip_wildcard (route_path r)) = Inr tokens"
    and "list_ex truthy_name (map (\<lambda>t. case t of Text s \<Rightarrow> KString s | Param k \<Rightarrow> key_name k) tokens)"
    and "toPath (JObject replace) = Inr replaced"
    and "truthy (get_prop opts ''query'')"
  shows "Route_url lib r (JObject replace) opts = Inl (ReferenceError ''parseUrl is not defined'')"
proof -
  from assms(5) have "opts \<noteq> JUndefined" and "truthy opts" by (cases opts; simp)+
  with assms show ?thesis by (simp add: Route_url_def Let_def)
qed

lemma Router_url_not_found:
  "Router_route rt name = None \<Longrightarrow> Router_url rt name params query = Inr None"
  by (simp add: Router_url_def)

lemma Router_url_found:
  "Router_route rt name = Some r \<Longrightarrow>
   Router_url rt name params query = Inl (ReferenceError ''opts is not defined'')"
  by (simp add: Router_url_def)

text \<open>
  C7 (the code at the failing input). With a query in the options, a string or an
  object, \<^verbatim>\<open>Route.url\<close> throws a \<^verbatim>\<open>ReferenceError\<close>; without one it returns the generated
  path.
\<close>

theorem url_with_query_throws:
  "Route_url sample_lib (sample_route [Handler ''show'']) (JObject [''id'' \<mapsto> JString ''1''])
     (JObject [''query'' \<mapsto> JString ''page=2'']) = Inl (ReferenceError ''parseUrl is not defined'')
   \<and> Route_url sample_lib (sample_route [Handler ''show'']) (JObject [''id'' \<mapsto> JString ''1''])
     (JObject [''query'' \<mapsto> JObject [''page'' \<mapsto> JNumber 2]]) = Inl (ReferenceError ''parseUrl is not defined'')
   \<and> Route_url sample_lib (sample_route [Handler ''show'']) (JObject [''id'' \<mapsto> JString ''1''])
     JUndefined = Inr ''/users/1''"
  by (simp add: Route_url_def sample_lib_def sample_route_def sample_key_def Let_def)









end
